theory Spec2Isabelle
  imports Main "HOL-Library.Multiset"
begin

section \<open>Generators\<close>

text \<open>
  A generator object is modelled by its suspended state together with a function that
  performs one call of \<^verbatim>\<open>next()\<close>: it returns the iterator result and the state in
  which the generator is suspended afterwards. \<open>Yield v\<close> stands for
  \<^verbatim>\<open>{value: v, done: false}\<close> and \<open>Done\<close> for \<^verbatim>\<open>{value: undefined, done: true}\<close>.
\<close>

datatype 'a iterResult = Yield 'a | Done

text \<open>
  \<open>run nxt n s\<close> calls \<^verbatim>\<open>next()\<close> exactly \<open>n\<close> times and collects the results.
\<close>

fun run :: "('s \<Rightarrow> 'a iterResult \<times> 's) \<Rightarrow> nat \<Rightarrow> 's \<Rightarrow> 'a iterResult list \<times> 's" where
  "run nxt 0 s = ([], s)"
| "run nxt (Suc n) s =
     (case nxt s of (r, s') \<Rightarrow> (case run nxt n s' of (rs, s'') \<Rightarrow> (r # rs, s'')))"

text \<open>
  \<open>consume nxt fuel s\<close> is the full consumption of a generator
  (\<^verbatim>\<open>for (const v of gen)\<close>, \<^verbatim>\<open>Array.from(gen)\<close>): it calls \<^verbatim>\<open>next()\<close> until the
  generator is done and returns the values produced and the final state. The fuel
  bounds the number of calls; \<open>None\<close> means that the generator was not done after
  \<open>fuel\<close> calls.
\<close>

fun consume :: "('s \<Rightarrow> 'a iterResult \<times> 's) \<Rightarrow> nat \<Rightarrow> 's \<Rightarrow> ('a list \<times> 's) option" where
  "consume nxt 0 s = None"
| "consume nxt (Suc n) s =
     (case nxt s of
        (Done, s') \<Rightarrow> Some ([], s')
      | (Yield v, s') \<Rightarrow>
          (case consume nxt n s' of
             None \<Rightarrow> None
           | Some (vs, s'') \<Rightarrow> Some (v # vs, s'')))"

section \<open>Numbers\<close>

text \<open>
  A number that the functions below compute with is an integer; \<open>None\<close> stands for
  the results that are not one (\<^verbatim>\<open>undefined\<close>, \<^verbatim>\<open>NaN\<close>).
\<close>

type_synonym jsnum = "int option"

text \<open>The operator \<^verbatim>\<open>+\<close> on numbers: \<^verbatim>\<open>undefined + x\<close> and \<^verbatim>\<open>NaN + x\<close> are \<^verbatim>\<open>NaN\<close>.\<close>

fun jsAdd :: "jsnum \<Rightarrow> jsnum \<Rightarrow> jsnum" where
  "jsAdd (Some a) (Some b) = Some (a + b)"
| "jsAdd _ _ = None"

text \<open>
  The operator \<^verbatim>\<open>%\<close> with a non-zero right operand: the remainder of the truncating
  division; it has the sign of the dividend.
\<close>

definition jsRem :: "int \<Rightarrow> int \<Rightarrow> int" where
  "jsRem a b = sgn a * (\<bar>a\<bar> mod \<bar>b\<bar>)"

text \<open>An array read \<^verbatim>\<open>xs[i]\<close>: \<^verbatim>\<open>undefined\<close> outside the array.\<close>

definition at :: "jsnum list \<Rightarrow> int \<Rightarrow> jsnum" where
  "at xs i = (if 0 \<le> i \<and> i < int (length xs) then xs ! nat i else None)"

section \<open>isLeapYear\<close>

text \<open>
  Of a date the function reads \<^verbatim>\<open>getFullYear()\<close> only: a date is modelled by the
  value of that call, a year, or \<open>None\<close> (\<^verbatim>\<open>NaN\<close>) for an invalid date.
\<close>

record date =
  getFullYear :: jsnum

text \<open>\<^verbatim>\<open>x % n === 0\<close> and \<^verbatim>\<open>x % n !== 0\<close>; \<^verbatim>\<open>NaN === 0\<close> is false.\<close>

definition remIsZero :: "jsnum \<Rightarrow> int \<Rightarrow> bool" where
  "remIsZero x n = (case x of None \<Rightarrow> False | Some y \<Rightarrow> jsRem y n = 0)"

definition isLeapYear :: "date \<Rightarrow> bool" where
  "isLeapYear d =
     (let divedeByFour = remIsZero (getFullYear d) 4;
          notDivedeByOneHundred = \<not> remIsZero (getFullYear d) 100;
          divedeByFourHundred = remIsZero (getFullYear d) 400
      in divedeByFour \<and> notDivedeByOneHundred \<or> divedeByFourHundred)"

section \<open>getFibonacciSequence\<close>

definition getNextValues :: "jsnum list \<Rightarrow> int \<Rightarrow> jsnum \<times> jsnum list" where
  "getNextValues values index =
     (let values' =
            (if index \<ge> int (length values)
             then values @ [jsAdd (at values (index - 2)) (at values (index - 1))]
             else values)
      in (at values' index, values'))"

text \<open>
  The state of the generator: the array \<^verbatim>\<open>values\<close> and the loop counter \<^verbatim>\<open>i\<close>, at
  the loop test.
\<close>

type_synonym fibState = "jsnum list \<times> int"

definition getFibonacciSequence :: fibState where
  "getFibonacciSequence = ([Some 0, Some 1], 0)"

fun fibNext :: "fibState \<Rightarrow> jsnum iterResult \<times> fibState" where
  "fibNext (values, i) =
     (if i < 39
      then (case getNextValues values i of (v, values') \<Rightarrow> (Yield v, (values', i + 1)))
      else (Done, (values, i)))"

text \<open>The Fibonacci numbers, as the specification defines them.\<close>

fun fib :: "nat \<Rightarrow> int" where
  "fib 0 = 0"
| "fib (Suc 0) = 1"
| "fib (Suc (Suc n)) = fib (Suc n) + fib n"

text \<open>The first \<open>n\<close> Fibonacci numbers, as values.\<close>

definition fibs :: "nat \<Rightarrow> jsnum list" where
  "fibs n = map (\<lambda>k. Some (fib k)) [0..<n]"

section \<open>mergeSortedSequences\<close>

text \<open>
  A source iterator is modelled by the values that its successive \<^verbatim>\<open>next().value\<close>
  reads return: \<open>src k\<close> is the value of call number \<open>k\<close> (from 0), and \<open>None\<close> is
  \<^verbatim>\<open>undefined\<close>, the value that an exhausted iterator returns.
\<close>

type_synonym source = "nat \<Rightarrow> jsnum"

text \<open>The iterator of a finite sequence and of an infinite one.\<close>

definition fromList :: "int list \<Rightarrow> source" where
  "fromList xs k = (if k < length xs then Some (xs ! k) else None)"

definition fromFun :: "(nat \<Rightarrow> int) \<Rightarrow> source" where
  "fromFun f k = Some (f k)"

text \<open>
  The generator is suspended either before a round of the loop (\<open>AtLoop\<close>) or between
  the two yields of the last branch (\<open>AfterMin\<close>, which keeps \<^verbatim>\<open>s1\<close> and \<^verbatim>\<open>s2\<close>).
  Both states record how many times \<^verbatim>\<open>next()\<close> has been called on \<^verbatim>\<open>seq1\<close> and on
  \<^verbatim>\<open>seq2\<close>.
\<close>

datatype mergeState = AtLoop nat nat | AfterMin nat nat int int

definition mergeSortedSequences :: mergeState where
  "mergeSortedSequences = AtLoop 0 0"

fun mergeNext :: "source \<Rightarrow> source \<Rightarrow> mergeState \<Rightarrow> jsnum iterResult \<times> mergeState" where
  "mergeNext source1 source2 (AtLoop k1 k2) =
     (let s1 = source1 k1; s2 = source2 k2 in
      case s1 of
        None \<Rightarrow> (Yield s2, AtLoop (Suc k1) (Suc k2))
      | Some a \<Rightarrow>
          (case s2 of
             None \<Rightarrow> (Yield s1, AtLoop (Suc k1) (Suc k2))
           | Some b \<Rightarrow> (Yield (Some (min a b)), AfterMin (Suc k1) (Suc k2) a b)))"
| "mergeNext source1 source2 (AfterMin k1 k2 a b) = (Yield (Some (max a b)), AtLoop k1 k2)"

text \<open>The values among iterator results, in order; \<^verbatim>\<open>undefined\<close> is not one.\<close>

fun numbers :: "jsnum iterResult list \<Rightarrow> int list" where
  "numbers [] = []"
| "numbers (Yield (Some v) # rs) = v # numbers rs"
| "numbers (_ # rs) = numbers rs"

section \<open>get99BottlesOfBeer\<close>

definition digitChar :: "nat \<Rightarrow> char" where
  "digitChar d = ''0123456789'' ! d"

text \<open>The decimal text that a template string gives for a natural number.\<close>

fun showNat :: "nat \<Rightarrow> string" where
  "showNat n = (if n < 10 then [digitChar n] else showNat (n div 10) @ [digitChar (n mod 10)])"

declare showNat.simps [simp del]

definition bottles :: "nat \<Rightarrow> string" where
  "bottles i = (if i = 1 then ''1 bottle'' else showNat i @ '' bottles'')"

text \<open>
  The generator is suspended at the loop test with counter \<open>i\<close> (\<open>SongLoop\<close>), after
  the first yield of a round (\<open>SongVerse\<close>), after the first closing line or at its
  end. The counter runs from 99 down to 0 and is decremented only when it is at
  least 1.
\<close>

datatype songState = SongLoop nat | SongVerse nat | SongClosing | SongEnd

definition get99BottlesOfBeer :: songState where
  "get99BottlesOfBeer = SongLoop 99"

fun songNext :: "songState \<Rightarrow> string iterResult \<times> songState" where
  "songNext (SongLoop i) =
     (if i \<ge> 1
      then (Yield (bottles i @ '' of beer on the wall, '' @ bottles i @ '' of beer.''),
            SongVerse i)
      else (Yield ''No more bottles of beer on the wall, no more bottles of beer.'',
            SongClosing))"
| "songNext (SongVerse i) =
     (if i = 1
      then (Yield ''Take one down and pass it around, no more bottles of beer on the wall.'',
            SongLoop (i - 1))
      else (Yield (''Take one down and pass it around, '' @ bottles (i - 1)
                   @ '' of beer on the wall.''),
            SongLoop (i - 1)))"
| "songNext SongClosing =
     (Yield ''Go to the store and buy some more, 99 bottles of beer on the wall.'', SongEnd)"
| "songNext SongEnd = (Done, SongEnd)"

text \<open>The lines of the song as the description of the function lists them.\<close>

definition verseLine :: "nat \<Rightarrow> string" where
  "verseLine i =
     (if i = 1 then ''1 bottle of beer on the wall, 1 bottle of beer.''
      else showNat i @ '' bottles of beer on the wall, '' @ showNat i @ '' bottles of beer.'')"

definition takeDownLine :: "nat \<Rightarrow> string" where
  "takeDownLine i =
     (if i = 1 then ''Take one down and pass it around, no more bottles of beer on the wall.''
      else if i = 2 then ''Take one down and pass it around, 1 bottle of beer on the wall.''
      else ''Take one down and pass it around, '' @ showNat (i - 1)
           @ '' bottles of beer on the wall.'')"

definition songLines :: "nat \<Rightarrow> string list" where
  "songLines n =
     concat (map (\<lambda>i. [verseLine i, takeDownLine i]) (rev [1..<Suc n]))
     @ [''No more bottles of beer on the wall, no more bottles of beer.'',
        ''Go to the store and buy some more, 99 bottles of beer on the wall.'']"

section \<open>Trees\<close>

text \<open>
  A node is an object: it lives at an address of the heap and holds a payload and,
  unless it is a leaf without the property, the array \<^verbatim>\<open>children\<close> of the addresses of
  its child nodes. The traversals yield nodes by reference, that is their addresses.
\<close>

type_synonym addr = nat

record 'p node =
  payload :: 'p
  children :: "addr list option"

type_synonym 'p heap = "addr \<Rightarrow> 'p node"

subsection \<open>depthTraversalTree\<close>

text \<open>
  The generator is suspended before its first statement (\<open>DepthStart\<close>), at the yield
  with \<^verbatim>\<open>curr\<close> and the stack \<^verbatim>\<open>nodes\<close> (\<open>DepthYielded\<close>), or at its end.
  \<^verbatim>\<open>curr.children.reverse()\<close> reverses the array of the node in place and returns it.
\<close>

datatype depthState = DepthStart addr | DepthYielded addr "addr list" | DepthEnd

definition depthTraversalTree :: "addr \<Rightarrow> depthState" where
  "depthTraversalTree root = DepthStart root"

definition depthLoop :: "'p heap \<Rightarrow> addr list \<Rightarrow> addr iterResult \<times> 'p heap \<times> depthState" where
  "depthLoop h nodes =
     (if nodes \<noteq> [] then (Yield (last nodes), h, DepthYielded (last nodes) (butlast nodes))
      else (Done, h, DepthEnd))"

fun depthNext :: "'p heap \<times> depthState \<Rightarrow> addr iterResult \<times> 'p heap \<times> depthState" where
  "depthNext (h, DepthStart root) = depthLoop h [root]"
| "depthNext (h, DepthYielded cur nodes) =
     (case children (h cur) of
        Some cs \<Rightarrow>
          depthLoop (h(cur := (h cur)\<lparr>children := Some (rev cs)\<rparr>)) (nodes @ rev cs)
      | None \<Rightarrow> depthLoop h nodes)"
| "depthNext (h, DepthEnd) = (Done, h, DepthEnd)"

subsection \<open>breadthTraversalTree\<close>

text \<open>
  The loop \<^verbatim>\<open>for (let node of nodes)\<close> reads the array by an index that it compares
  with the current length at each step. The generator is suspended before its first
  statement, at the yield with \<^verbatim>\<open>node\<close>, the array and the index of the next read, or
  at its end.
\<close>

datatype breadthState = BreadthStart addr | BreadthYielded addr "addr list" nat | BreadthEnd

definition breadthTraversalTree :: "addr \<Rightarrow> breadthState" where
  "breadthTraversalTree root = BreadthStart root"

definition breadthLoop ::
  "'p heap \<Rightarrow> addr list \<Rightarrow> nat \<Rightarrow> addr iterResult \<times> 'p heap \<times> breadthState" where
  "breadthLoop h nodes i =
     (if i < length nodes then (Yield (nodes ! i), h, BreadthYielded (nodes ! i) nodes (Suc i))
      else (Done, h, BreadthEnd))"

fun breadthNext :: "'p heap \<times> breadthState \<Rightarrow> addr iterResult \<times> 'p heap \<times> breadthState" where
  "breadthNext (h, BreadthStart root) = breadthLoop h [root] 0"
| "breadthNext (h, BreadthYielded node nodes i) =
     (case children (h node) of
        Some cs \<Rightarrow> breadthLoop h (nodes @ cs) i
      | None \<Rightarrow> breadthLoop h nodes i)"
| "breadthNext (h, BreadthEnd) = (Done, h, BreadthEnd)"

subsection \<open>The tree that a heap holds\<close>

text \<open>
  The shape of a tree: the address of its root node and the subtrees in the order of
  the array of children.
\<close>

datatype tree = Tree (root: addr) (subtrees: "tree list")

text \<open>The addresses in the array of children of a node; none without the property.\<close>

definition kids :: "'p heap \<Rightarrow> addr \<Rightarrow> addr list" where
  "kids h a = (case children (h a) of None \<Rightarrow> [] | Some cs \<Rightarrow> cs)"

text \<open>The heap holds the tree: every node has the roots of its subtrees as children.\<close>

fun holds :: "'p heap \<Rightarrow> tree \<Rightarrow> bool" where
  "holds h (Tree a ts) = (kids h a = map root ts \<and> (\<forall>t \<in> set ts. holds h t))"

text \<open>Pre-order: a node, then the subtrees of its children, one after the other.\<close>

fun preorder :: "tree \<Rightarrow> addr list" where
  "preorder (Tree a ts) = a # concat (map preorder ts)"

text \<open>
  A heap holds a finite tree at an address when it holds a shape in which no node
  occurs twice.
\<close>

definition isTree :: "'p heap \<Rightarrow> tree \<Rightarrow> bool" where
  "isTree h t = (holds h t \<and> distinct (preorder t))"

text \<open>The nodes at depth \<open>d\<close>, from left to right, and the number of levels.\<close>

fun level :: "nat \<Rightarrow> tree \<Rightarrow> addr list" where
  "level 0 (Tree a ts) = [a]"
| "level (Suc d) (Tree a ts) = concat (map (level d) ts)"

fun height :: "tree \<Rightarrow> nat" where
  "height (Tree a ts) = Suc (foldr max (map height ts) 0)"

definition levelOrder :: "tree \<Rightarrow> addr list" where
  "levelOrder t = concat (map (\<lambda>d. level d t) [0..<height t])"

subsection \<open>The documented example trees\<close>

definition leafNode :: "nat \<Rightarrow> nat node" where
  "leafNode n = \<lparr>payload = n, children = None\<rparr>"

definition innerNode :: "nat \<Rightarrow> addr list \<Rightarrow> nat node" where
  "innerNode n cs = \<lparr>payload = n, children = Some cs\<rparr>"

text \<open>The tree of the description of depthTraversalTree; node \<open>n\<close> is at address \<open>n\<close>.\<close>

definition depthExample :: "nat heap" where
  "depthExample a =
     (if a = 1 then innerNode 1 [2, 6, 7]
      else if a = 2 then innerNode 2 [3, 4]
      else if a = 4 then innerNode 4 [5]
      else if a = 7 then innerNode 7 [8]
      else leafNode a)"

definition depthExampleTree :: tree where
  "depthExampleTree =
     Tree 1 [Tree 2 [Tree 3 [], Tree 4 [Tree 5 []]], Tree 6 [], Tree 7 [Tree 8 []]]"

text \<open>The tree of the description of breadthTraversalTree.\<close>

definition breadthExample :: "nat heap" where
  "breadthExample a =
     (if a = 1 then innerNode 1 [2, 3, 4]
      else if a = 2 then innerNode 2 [5, 6]
      else if a = 4 then innerNode 4 [7]
      else if a = 6 then innerNode 6 [8]
      else leafNode a)"

definition breadthExampleTree :: tree where
  "breadthExampleTree =
     Tree 1 [Tree 2 [Tree 5 [], Tree 6 [Tree 8 []]], Tree 3 [], Tree 4 [Tree 7 []]]"

subsection \<open>Forests\<close>

text \<open>
  The traversals keep lists of pending nodes: these are the pre-order of a list of
  trees, the nodes at depth \<open>d\<close> of a list of trees and the first \<open>n\<close> levels of a
  list of trees.
\<close>

definition forestPreorder :: "tree list \<Rightarrow> addr list" where
  "forestPreorder ts = concat (map preorder ts)"

definition forestLevel :: "nat \<Rightarrow> tree list \<Rightarrow> addr list" where
  "forestLevel d ts = concat (map (level d) ts)"

definition forestLevelOrder :: "nat \<Rightarrow> tree list \<Rightarrow> addr list" where
  "forestLevelOrder n ts = concat (map (\<lambda>d. forestLevel d ts) [0..<n])"

section \<open>Properties of the generators\<close>

lemma consume_Yield:
  "nxt s = (Yield v, s') \<Longrightarrow> consume nxt n s' = Some (vs, s'') \<Longrightarrow>
   consume nxt (Suc n) s = Some (v # vs, s'')"
  by simp

lemma consume_Done: "nxt s = (Done, s') \<Longrightarrow> consume nxt (Suc n) s = Some ([], s')"
  by simp

section \<open>Properties of isLeapYear\<close>

lemma jsRem_eq_0_iff: "b \<noteq> 0 \<Longrightarrow> jsRem a b = 0 \<longleftrightarrow> b dvd a"
  by (auto simp: jsRem_def sgn_if dvd_eq_mod_eq_0 [symmetric])

text \<open>
  C9: isLeapYear returns true exactly when the full year of the date is divisible by 4
  and not by 100, or divisible by 400; an invalid date has no year and gives false.
  The year 1900 gives false and the year 2000 gives true.
\<close>

theorem isLeapYear_gregorian:
  "isLeapYear d =
     (\<exists>y. getFullYear d = Some y \<and> (4 dvd y \<and> \<not> 100 dvd y \<or> 400 dvd y))
   \<and> isLeapYear \<lparr>getFullYear = Some 1900\<rparr> = False
   \<and> isLeapYear \<lparr>getFullYear = Some 2000\<rparr> = True"
  by (auto simp: isLeapYear_def remIsZero_def jsRem_eq_0_iff split: option.splits)

section \<open>Properties of getFibonacciSequence\<close>

lemma length_fibs: "length (fibs n) = n"
  by (simp add: fibs_def)

lemma nth_fibs: "k < n \<Longrightarrow> fibs n ! k = Some (fib k)"
  by (simp add: fibs_def)

lemma fibs_Suc: "fibs (Suc n) = fibs n @ [Some (fib n)]"
  by (simp add: fibs_def)

lemma fibs_2: "fibs 2 = [Some 0, Some 1]"
  by (simp add: fibs_def numeral_2_eq_2)

lemma at_fibs: "k < n \<Longrightarrow> at (fibs n) (int k) = Some (fib k)"
  by (simp add: at_def length_fibs nth_fibs)

text \<open>
  The array holds the Fibonacci numbers computed so far: a call with the next index
  appends the next number (from index 2 on) and returns the number at the index.
\<close>

lemma getNextValues_fib:
  "getNextValues (fibs (max 2 i)) (int i) = (Some (fib i), fibs (max 2 (Suc i)))"
proof (cases "i < 2")
  case True
  then have m: "max 2 i = 2" "max 2 (Suc i) = 2" by auto
  from True show ?thesis
    unfolding m by (simp add: getNextValues_def length_fibs at_fibs)
next
  case False
  then obtain j where j: "i = Suc (Suc j)"
    by (metis Suc_lessI lessI less_Suc_eq_0_disj numeral_2_eq_2)
  have m: "max 2 i = i" "max 2 (Suc i) = Suc i" using False by auto
  have a: "at (fibs i) (int i - 2) = Some (fib j)" "at (fibs i) (int i - 1) = Some (fib (Suc j))"
    using at_fibs [of j i] at_fibs [of "Suc j" i] by (simp_all add: j)
  have b: "at (fibs (Suc i)) (int i) = Some (fib i)"
    by (rule at_fibs) simp
  have c: "fib (Suc j) + fib j = fib i" by (simp add: j)
  show ?thesis
    unfolding m getNextValues_def Let_def
    by (simp add: length_fibs a add.commute[of "fib j"] c fibs_Suc [symmetric] b del: fib.simps)
qed

lemma fibNext_step:
  "i < 39 \<Longrightarrow>
   fibNext (fibs (max 2 i), int i) = (Yield (Some (fib i)), (fibs (max 2 (Suc i)), int (Suc i)))"
  by (simp add: getNextValues_fib del: max_Suc_Suc)

lemma consume_fib:
  "i + d = 39 \<Longrightarrow>
   consume fibNext (Suc d + k) (fibs (max 2 i), int i) =
     Some (map (\<lambda>n. Some (fib n)) [i..<39], (fibs 39, 39))"
proof (induction d arbitrary: i)
  case 0
  then show ?case by simp
next
  case (Suc d)
  then have i: "i < 39" and s: "Suc i + d = 39" by auto
  have u: "[i..<39] = i # [Suc i..<39]" using i by (simp add: upt_conv_Cons)
  have "consume fibNext (Suc (Suc d + k)) (fibs (max 2 i), int i) =
     Some (Some (fib i) # map (\<lambda>n. Some (fib n)) [Suc i..<39], (fibs 39, 39))"
    using fibNext_step [OF i] Suc.IH [OF s] by (rule consume_Yield)
  then show ?case unfolding u by simp
qed

text \<open>
  C7: the full consumption of getFibonacciSequence ends at the 40th call of next() (and
  with any larger bound on the number of calls) and has then produced exactly 39
  values; the value at position \<open>n\<close> (from 0) is the Fibonacci number \<open>fib n\<close>, for
  every \<open>n\<close> from 0 to 38, and the value at position 10 is 55.
\<close>

theorem getFibonacciSequence_fib:
  "consume fibNext (40 + k) getFibonacciSequence = Some (fibs 39, (fibs 39, 39))
   \<and> length (fibs 39) = 39
   \<and> fibs 39 = map (\<lambda>n. Some (fib n)) [0..<39]
   \<and> fibs 39 ! 10 = Some 55"
proof -
  have i: "getFibonacciSequence = (fibs (max 2 0), int 0)"
    by (simp add: getFibonacciSequence_def fibs_2)
  have "consume fibNext (Suc 39 + k) getFibonacciSequence =
     Some (map (\<lambda>n. Some (fib n)) [0..<39], (fibs 39, 39))"
    unfolding i by (rule consume_fib) simp
  then have "consume fibNext (40 + k) getFibonacciSequence = Some (fibs 39, (fibs 39, 39))"
    by (simp add: fibs_def del: upt_Suc consume.simps)
  moreover have "fib 10 = 55" by code_simp
  ultimately show ?thesis by (simp add: length_fibs nth_fibs) (simp add: fibs_def)
qed

section \<open>Properties of mergeSortedSequences\<close>

lemma mergeNext_never_Done: "fst (mergeNext source1 source2 st) \<noteq> Done"
  by (cases st) (auto simp: Let_def split: option.splits)

lemma consume_merge_None: "consume (mergeNext source1 source2) fuel st = None"
proof (induction fuel arbitrary: st)
  case 0
  show ?case by simp
next
  case (Suc fuel)
  obtain r st' where n: "mergeNext source1 source2 st = (r, st')" by force
  with mergeNext_never_Done [of source1 source2 st] obtain v where "r = Yield v"
    by (cases r) auto
  with n Suc.IH [of st'] show ?case by simp
qed

text \<open>
  C1 (the code does otherwise): with the finite sources [1] and [2] the generator
  produces 1 and 2 and then \<^verbatim>\<open>undefined\<close> at every further call of next(); it is
  never done, whatever the bound on the number of calls.
\<close>

theorem mergeSortedSequences_never_exhausts:
  "fst (run (mergeNext (fromList [1]) (fromList [2])) 5 mergeSortedSequences) =
     [Yield (Some 1), Yield (Some 2), Yield None, Yield None, Yield None]
   \<and> consume (mergeNext (fromList [1]) (fromList [2])) fuel mergeSortedSequences = None"
proof -
  have "fst (run (mergeNext (fromList [1]) (fromList [2])) 5 mergeSortedSequences) =
     [Yield (Some 1), Yield (Some 2), Yield None, Yield None, Yield None]"
    by code_simp
  then show ?thesis by (simp only: consume_merge_None simp_thms)
qed

text \<open>
  C2 (the code does otherwise): the sources [1, 2] and [3, 4] are sorted, and the
  generator produces 1, 3, 2, 4, which is not sorted.
\<close>

theorem mergeSortedSequences_unsorted:
  "fst (run (mergeNext (fromList [1, 2]) (fromList [3, 4])) 4 mergeSortedSequences) =
     [Yield (Some 1), Yield (Some 3), Yield (Some 2), Yield (Some 4)]
   \<and> \<not> sorted (numbers (fst (run (mergeNext (fromList [1, 2]) (fromList [3, 4])) 4 mergeSortedSequences)))"
  by code_simp

lemma fst_run_Suc: "nxt s = (r, s') \<Longrightarrow> fst (run nxt (Suc n) s) = r # fst (run nxt n s')"
  by (simp split: prod.splits)

lemma upt_plus_Suc: "[a..<a + Suc n] = a # [Suc a..<Suc a + n]"
  by (simp add: upt_conv_Cons)

lemma run_odds_evens:
  "fst (run (mergeNext (fromFun (\<lambda>k. 2 * int k + 1)) (fromFun (\<lambda>k. 2 * int k + 2))) (2 * n) (AtLoop k k)) =
     map (\<lambda>i. Yield (Some (int i + 1))) [2 * k..<2 * k + 2 * n]"
proof (induction n arbitrary: k)
  case 0
  show ?case by simp
next
  case (Suc n)
  let ?nxt = "mergeNext (fromFun (\<lambda>k. 2 * int k + 1)) (fromFun (\<lambda>k. 2 * int k + 2))"
  have s1: "?nxt (AtLoop k k) =
      (Yield (Some (int (2 * k) + 1)), AfterMin (Suc k) (Suc k) (2 * int k + 1) (2 * int k + 2))"
    by (simp add: fromFun_def)
  have s2: "?nxt (AfterMin (Suc k) (Suc k) (2 * int k + 1) (2 * int k + 2)) =
      (Yield (Some (int (Suc (2 * k)) + 1)), AtLoop (Suc k) (Suc k))"
    by simp
  have n: "2 * Suc n = Suc (Suc (2 * n))" by simp
  have u: "[2 * k..<2 * k + Suc (Suc (2 * n))] = (2 * k) # Suc (2 * k) # [2 * Suc k..<2 * Suc k + 2 * n]"
    using upt_plus_Suc [of "2 * k" "Suc (2 * n)"] upt_plus_Suc [of "Suc (2 * k)" "2 * n"]
    by (simp del: upt_Suc)
  show ?case
    unfolding u n fst_run_Suc [of ?nxt, OF s1] fst_run_Suc [of ?nxt, OF s2] Suc.IH [of "Suc k"]
    by (simp del: upt_Suc)
qed

lemma run_zero_evens:
  "fst (run (mergeNext (fromList [0]) (fromFun (\<lambda>k. 2 * int k + 2))) n (AtLoop (Suc k) (Suc k))) =
     map (\<lambda>i. Yield (Some (2 * int i))) [Suc (Suc k)..<Suc (Suc k) + n]"
proof (induction n arbitrary: k)
  case 0
  show ?case by simp
next
  case (Suc n)
  let ?nxt = "mergeNext (fromList [0]) (fromFun (\<lambda>k. 2 * int k + 2))"
  have s1: "?nxt (AtLoop (Suc k) (Suc k)) =
      (Yield (Some (2 * int (Suc (Suc k)))), AtLoop (Suc (Suc k)) (Suc (Suc k)))"
    by (simp add: fromFun_def fromList_def)
  show ?case
    unfolding upt_plus_Suc fst_run_Suc [of ?nxt, OF s1] Suc.IH [of "Suc k"]
    by (simp del: upt_Suc)
qed

lemma run_zero_evens_start:
  "fst (run (mergeNext (fromList [0]) (fromFun (\<lambda>k. 2 * int k + 2))) (Suc (Suc n)) (AtLoop 0 0)) =
     map (\<lambda>i. Yield (Some (2 * int i))) [0..<Suc (Suc n)]"
proof -
  let ?nxt = "mergeNext (fromList [0]) (fromFun (\<lambda>k. 2 * int k + 2))"
  have s1: "?nxt (AtLoop 0 0) = (Yield (Some (2 * int 0)), AfterMin (Suc 0) (Suc 0) 0 2)"
    by (simp add: fromFun_def fromList_def)
  have s2: "?nxt (AfterMin (Suc 0) (Suc 0) 0 2) = (Yield (Some (2 * int (Suc 0))), AtLoop (Suc 0) (Suc 0))"
    by simp
  have u: "[0..<Suc (Suc n)] = 0 # Suc 0 # [Suc (Suc 0)..<Suc (Suc 0) + n]"
    using upt_plus_Suc [of 0 "Suc n"] upt_plus_Suc [of "Suc 0" n] by (simp del: upt_Suc)
  show ?thesis
    unfolding u fst_run_Suc [of ?nxt, OF s1] fst_run_Suc [of ?nxt, OF s2] run_zero_evens [of n 0]
    by (simp del: upt_Suc)
qed

text \<open>
  C6: a round of the loop calls next() once on each source. When both calls give a
  value, the next two results of the generator are the smaller and then the larger of
  the two values; when exactly one call gives a value, the next result is that value
  alone. After the round one more call has been made on each source.
  Merging 1, 3, 5, ... with 2, 4, 6, ... produces 1, 2, 3, 4, ..., and merging [0] with
  2, 4, 6, ... produces 0, 2, 4, 6, ....
\<close>

theorem mergeSortedSequences_rounds:
  "(source1 k1 = Some a \<and> source2 k2 = Some b \<longrightarrow>
      run (mergeNext source1 source2) 2 (AtLoop k1 k2) =
        ([Yield (Some (min a b)), Yield (Some (max a b))], AtLoop (Suc k1) (Suc k2)))
   \<and> (source1 k1 = Some a \<and> source2 k2 = None \<longrightarrow>
      run (mergeNext source1 source2) 1 (AtLoop k1 k2) =
        ([Yield (Some a)], AtLoop (Suc k1) (Suc k2)))
   \<and> (source1 k1 = None \<and> source2 k2 = Some b \<longrightarrow>
      run (mergeNext source1 source2) 1 (AtLoop k1 k2) =
        ([Yield (Some b)], AtLoop (Suc k1) (Suc k2)))
   \<and> fst (run (mergeNext (fromFun (\<lambda>k. 2 * int k + 1)) (fromFun (\<lambda>k. 2 * int k + 2)))
            (2 * n) mergeSortedSequences) =
       map (\<lambda>i. Yield (Some (int i + 1))) [0..<2 * n]
   \<and> fst (run (mergeNext (fromList [0]) (fromFun (\<lambda>k. 2 * int k + 2)))
            (Suc (Suc n)) mergeSortedSequences) =
       map (\<lambda>i. Yield (Some (2 * int i))) [0..<Suc (Suc n)]"
proof -
  have e1: "fst (run (mergeNext (fromFun (\<lambda>k. 2 * int k + 1)) (fromFun (\<lambda>k. 2 * int k + 2)))
            (2 * n) mergeSortedSequences) =
       map (\<lambda>i. Yield (Some (int i + 1))) [0..<2 * n]"
    using run_odds_evens [of n 0] by (simp add: mergeSortedSequences_def)
  have e2: "fst (run (mergeNext (fromList [0]) (fromFun (\<lambda>k. 2 * int k + 2)))
            (Suc (Suc n)) mergeSortedSequences) =
       map (\<lambda>i. Yield (Some (2 * int i))) [0..<Suc (Suc n)]"
    unfolding mergeSortedSequences_def by (rule run_zero_evens_start)
  show ?thesis
    unfolding e1 e2 by (simp add: numeral_2_eq_2)
qed

theorem mergeSortedSequences_rounds_witness:
  "run (mergeNext (fromList [5, 6]) (fromList [3])) 2 (AtLoop 0 0) =
        ([Yield (Some 3), Yield (Some 5)], AtLoop 1 1)
   \<and> run (mergeNext (fromList [5, 6]) (fromList [3])) 1 (AtLoop 1 1) =
        ([Yield (Some 6)], AtLoop 2 2)
   \<and> run (mergeNext (fromList [3]) (fromList [5, 6])) 1 (AtLoop 1 1) =
        ([Yield (Some 6)], AtLoop 2 2)"
  using mergeSortedSequences_rounds [of "fromList [5, 6]" 0 5 "fromList [3]" 0 3 0]
        mergeSortedSequences_rounds [of "fromList [5, 6]" 1 6 "fromList [3]" 1 3 0]
        mergeSortedSequences_rounds [of "fromList [3]" 1 3 "fromList [5, 6]" 1 6 0]
  by (simp add: fromList_def)

section \<open>Properties of get99BottlesOfBeer\<close>

lemma verse_eq:
  "bottles i @ '' of beer on the wall, '' @ bottles i @ '' of beer.'' = verseLine i"
  by (simp add: bottles_def verseLine_def)

lemma takeDown_eq:
  "i \<noteq> 1 \<Longrightarrow> i \<noteq> 0 \<Longrightarrow>
   ''Take one down and pass it around, '' @ bottles (i - 1) @ '' of beer on the wall.'' =
     takeDownLine i"
  by (auto simp: bottles_def takeDownLine_def numeral_2_eq_2)

lemma songNext_verse: "songNext (SongLoop (Suc i)) = (Yield (verseLine (Suc i)), SongVerse (Suc i))"
  using verse_eq [of "Suc i"] by simp

lemma songNext_takeDown: "songNext (SongVerse (Suc i)) = (Yield (takeDownLine (Suc i)), SongLoop i)"
proof (cases "i = 0")
  case True
  then show ?thesis by (simp add: takeDownLine_def)
next
  case False
  then show ?thesis using takeDown_eq [of "Suc i"] by simp
qed

lemma songLines_Suc: "songLines (Suc i) = verseLine (Suc i) # takeDownLine (Suc i) # songLines i"
  by (simp add: songLines_def)

lemma length_songLines: "length (songLines n) = 2 * n + 2"
  by (induction n) (simp_all add: songLines_Suc, simp add: songLines_def)

lemma drop_songLines: "drop (2 * d) (songLines (d + n)) = songLines n"
  by (induction d) (simp_all add: songLines_Suc)

lemma songLines_2:
  "songLines 2 =
       [''2 bottles of beer on the wall, 2 bottles of beer.'',
        ''Take one down and pass it around, 1 bottle of beer on the wall.'',
        ''1 bottle of beer on the wall, 1 bottle of beer.'',
        ''Take one down and pass it around, no more bottles of beer on the wall.'',
        ''No more bottles of beer on the wall, no more bottles of beer.'',
        ''Go to the store and buy some more, 99 bottles of beer on the wall.'']"
  by code_simp

lemma songLines_99:
  "take 2 (songLines 99) =
       [''99 bottles of beer on the wall, 99 bottles of beer.'',
        ''Take one down and pass it around, 98 bottles of beer on the wall.'']"
proof -
  have "verseLine 99 = ''99 bottles of beer on the wall, 99 bottles of beer.''"
    by code_simp
  moreover have "takeDownLine 99 = ''Take one down and pass it around, 98 bottles of beer on the wall.''"
    by code_simp
  ultimately show ?thesis
    using songLines_Suc [of 98] by simp
qed

lemma consume_song: "consume songNext (2 * i + 3 + k) (SongLoop i) = Some (songLines i, SongEnd)"
proof (induction i)
  case 0
  show ?case by (simp add: songLines_def numeral_3_eq_3)
next
  case (Suc i)
  have n: "2 * Suc i + 3 + k = Suc (Suc (2 * i + 3 + k))" by simp
  show ?case
    unfolding n songLines_Suc
    by (rule consume_Yield [of songNext, OF songNext_verse])
       (rule consume_Yield [of songNext, OF songNext_takeDown Suc.IH])
qed

text \<open>
  C10: the full consumption of get99BottlesOfBeer ends at the 201st call of next() (and
  with any larger bound on the number of calls) and has then produced exactly 200
  strings: for each count from 99 down to 1 the verse line and the take-down line of
  that count, then the two closing lines. The count 1 is written as "1 bottle", and
  the last take-down line says "no more bottles".
\<close>

theorem get99BottlesOfBeer_lines:
  "consume songNext (201 + k) get99BottlesOfBeer = Some (songLines 99, SongEnd)
   \<and> length (songLines 99) = 200
   \<and> take 2 (songLines 99) =
       [''99 bottles of beer on the wall, 99 bottles of beer.'',
        ''Take one down and pass it around, 98 bottles of beer on the wall.'']
   \<and> drop 194 (songLines 99) =
       [''2 bottles of beer on the wall, 2 bottles of beer.'',
        ''Take one down and pass it around, 1 bottle of beer on the wall.'',
        ''1 bottle of beer on the wall, 1 bottle of beer.'',
        ''Take one down and pass it around, no more bottles of beer on the wall.'',
        ''No more bottles of beer on the wall, no more bottles of beer.'',
        ''Go to the store and buy some more, 99 bottles of beer on the wall.'']"
proof -
  have "consume songNext (2 * 99 + 3 + k) (SongLoop 99) = Some (songLines 99, SongEnd)"
    by (rule consume_song)
  then have a: "consume songNext (201 + k) get99BottlesOfBeer = Some (songLines 99, SongEnd)"
    by (simp add: get99BottlesOfBeer_def del: consume.simps)
  have c: "drop 194 (songLines 99) = songLines 2"
    using drop_songLines [of 97 2] by simp
  show ?thesis
    unfolding a c songLines_99 songLines_2 by (simp add: length_songLines)
qed

section \<open>Properties of depthTraversalTree\<close>

lemma forestPreorder_Nil: "forestPreorder [] = []"
  by (simp add: forestPreorder_def)

lemma forestPreorder_Cons:
  "forestPreorder (Tree b us # ts) = b # forestPreorder (us @ ts)"
  by (simp add: forestPreorder_def)

lemma forestPreorder_append: "forestPreorder (ts @ us) = forestPreorder ts @ forestPreorder us"
  by (simp add: forestPreorder_def)

lemma preorder_forest: "preorder t = forestPreorder [t]"
  by (cases t) (simp add: forestPreorder_def)

lemma holds_update:
  "a \<notin> set (preorder t) \<Longrightarrow> holds (h(a := x)) t = holds h t"
proof (induction t)
  case (Tree b ts)
  then have "b \<noteq> a" and "\<And>t. t \<in> set ts \<Longrightarrow> a \<notin> set (preorder t)" by auto
  with Tree.IH show ?case by (auto simp: kids_def)
qed

lemma depthLoop_Nil: "depthLoop h [] = (Done, h, DepthEnd)"
  by (simp add: depthLoop_def)

lemma depthLoop_snoc: "depthLoop h (nodes @ [b]) = (Yield b, h, DepthYielded b nodes)"
  by (simp add: depthLoop_def)

lemma depthNext_expand:
  assumes "kids h a = map root ts"
  shows "\<exists>h1. depthNext (h, DepthYielded a (rev (map root rest))) =
                depthLoop h1 (rev (map root (ts @ rest)))
              \<and> (\<forall>t. a \<notin> set (preorder t) \<longrightarrow> holds h1 t = holds h t)"
proof (cases "children (h a)")
  case None
  with assms have "ts = []" by (simp add: kids_def)
  with None show ?thesis by auto
next
  case (Some cs)
  with assms have "cs = map root ts" by (simp add: kids_def)
  with Some show ?thesis by (auto simp: holds_update rev_map)
qed

lemma consume_depth:
  "length (forestPreorder (ts @ rest)) = n \<Longrightarrow>
   kids h a = map root ts \<Longrightarrow>
   \<forall>t \<in> set (ts @ rest). holds h t \<Longrightarrow>
   distinct (a # forestPreorder (ts @ rest)) \<Longrightarrow>
   \<exists>h'. consume depthNext (Suc n + k) (h, DepthYielded a (rev (map root rest))) =
          Some (forestPreorder (ts @ rest), (h', DepthEnd))"
proof (induction n arbitrary: h a ts rest)
  case 0
  then have e: "ts @ rest = []" by (cases "ts @ rest"; cases "hd (ts @ rest)") (auto simp: forestPreorder_def)
  from depthNext_expand [OF "0.prems"(2), of rest] obtain h1 where
    "depthNext (h, DepthYielded a (rev (map root rest))) = depthLoop h1 (rev (map root (ts @ rest)))"
    by blast
  then have "depthNext (h, DepthYielded a (rev (map root rest))) = (Done, h1, DepthEnd)"
    unfolding e by (simp add: depthLoop_Nil)
  then have "consume depthNext (Suc (0 + k)) (h, DepthYielded a (rev (map root rest))) = Some ([], (h1, DepthEnd))"
    by (rule consume_Done)
  then show ?case unfolding e by (auto simp: forestPreorder_Nil)
next
  case (Suc n)
  from Suc.prems(1) obtain b us F where F: "ts @ rest = Tree b us # F"
    by (cases "ts @ rest"; cases "hd (ts @ rest)") (auto simp: forestPreorder_def)
  from depthNext_expand [OF Suc.prems(2), of rest] obtain h1 where
    h1: "depthNext (h, DepthYielded a (rev (map root rest))) = depthLoop h1 (rev (map root (ts @ rest)))"
    and keep: "\<And>t. a \<notin> set (preorder t) \<Longrightarrow> holds h1 t = holds h t"
    by blast
  have step: "depthNext (h, DepthYielded a (rev (map root rest))) =
     (Yield b, h1, DepthYielded b (rev (map root F)))"
    unfolding h1 F by (simp add: depthLoop_snoc)
  have pre: "forestPreorder (ts @ rest) = b # forestPreorder (us @ F)"
    unfolding F by (rule forestPreorder_Cons)
  have notin: "a \<notin> set (preorder t)" if "t \<in> set (Tree b us # F)" for t
    using Suc.prems(4) that unfolding F forestPreorder_def by auto
  have hold1: "holds h1 t" if "t \<in> set (Tree b us # F)" for t
  proof -
    have "holds h t" using Suc.prems(3) that unfolding F by blast
    then show ?thesis using keep [OF notin [OF that]] by blast
  qed
  have 1: "length (forestPreorder (us @ F)) = n"
    using Suc.prems(1) unfolding pre by simp
  have 2: "kids h1 b = map root us"
    using hold1 [of "Tree b us"] by simp
  have 3: "\<forall>t \<in> set (us @ F). holds h1 t"
    using hold1 [of "Tree b us"] hold1 by auto
  have 4: "distinct (b # forestPreorder (us @ F))"
    using Suc.prems(4) unfolding pre by simp
  from Suc.IH [OF 1 2 3 4] obtain h' where
    "consume depthNext (Suc n + k) (h1, DepthYielded b (rev (map root F))) =
       Some (forestPreorder (us @ F), (h', DepthEnd))"
    by blast
  with step have "consume depthNext (Suc (Suc n + k)) (h, DepthYielded a (rev (map root rest))) =
       Some (b # forestPreorder (us @ F), (h', DepthEnd))"
    by (rule consume_Yield [of depthNext])
  then show ?case unfolding pre by auto
qed

lemma holds_example: "holds depthExample depthExampleTree"
  by (simp add: depthExampleTree_def depthExample_def kids_def innerNode_def leafNode_def)

text \<open>
  C4: on a heap that holds a finite tree, the full consumption of depthTraversalTree
  of the root ends (with any bound above the number of nodes on the calls of next())
  and has produced the nodes in pre-order: a node, then the whole subtree of each of
  its children in the order of the array of children. No node is produced twice. On
  the documented tree of 8 nodes the order is node1, node2, ..., node8.
\<close>

theorem depthTraversalTree_preorder:
  "(isTree h t \<longrightarrow>
      (\<exists>h'. consume depthNext (Suc (length (preorder t)) + k) (h, depthTraversalTree (root t)) =
             Some (preorder t, (h', DepthEnd)))
      \<and> distinct (preorder t))
   \<and> isTree depthExample depthExampleTree
   \<and> root depthExampleTree = 1
   \<and> preorder depthExampleTree = [1, 2, 3, 4, 5, 6, 7, 8]"
proof -
  have g: "\<exists>h'. consume depthNext (Suc (length (preorder t)) + k) (h, depthTraversalTree (root t)) =
             Some (preorder t, (h', DepthEnd))" if "isTree h t"
  proof -
    obtain a ts where t: "t = Tree a ts" by (cases t)
    from that have h: "holds h t" and d: "distinct (preorder t)" by (simp_all add: isTree_def)
    have p: "preorder t = a # forestPreorder (ts @ [])"
      by (simp add: t forestPreorder_def)
    have 1: "length (forestPreorder (ts @ [])) = length (forestPreorder (ts @ []))" ..
    have 2: "kids h a = map root ts" using h by (simp add: t)
    have 3: "\<forall>u \<in> set (ts @ []). holds h u" using h by (simp add: t)
    have 4: "distinct (a # forestPreorder (ts @ []))" using d unfolding p .
    from consume_depth [OF 1 2 3 4, of k] obtain h' where
      c: "consume depthNext (Suc (length (forestPreorder (ts @ []))) + k) (h, DepthYielded a (rev (map root []))) =
          Some (forestPreorder (ts @ []), (h', DepthEnd))"
      by blast
    have s: "depthNext (h, depthTraversalTree (root t)) = (Yield a, h, DepthYielded a (rev (map root [])))"
      by (simp add: t depthTraversalTree_def depthLoop_def)
    have "consume depthNext (Suc (Suc (length (forestPreorder (ts @ []))) + k)) (h, depthTraversalTree (root t)) =
          Some (a # forestPreorder (ts @ []), (h', DepthEnd))"
      using s c by (rule consume_Yield [of depthNext])
    then show ?thesis unfolding p by auto
  qed
  have e: "preorder depthExampleTree = [1, 2, 3, 4, 5, 6, 7, 8]"
    by (simp add: depthExampleTree_def)
  have "isTree depthExample depthExampleTree"
    unfolding isTree_def e using holds_example by simp
  then show ?thesis
    using g e by (auto simp: isTree_def depthExampleTree_def)
qed

theorem depthTraversalTree_preorder_witness:
  "\<exists>h'. consume depthNext 9 (depthExample, depthTraversalTree 1) =
           Some ([1, 2, 3, 4, 5, 6, 7, 8], (h', DepthEnd))"
proof -
  note w = depthTraversalTree_preorder [of depthExample depthExampleTree 0]
  from w have i: "isTree depthExample depthExampleTree"
    and r: "root depthExampleTree = 1"
    and p: "preorder depthExampleTree = [1, 2, 3, 4, 5, 6, 7, 8]"
    by blast+
  from w i have "\<exists>h'. consume depthNext (Suc (length (preorder depthExampleTree)) + 0)
      (depthExample, depthTraversalTree (root depthExampleTree)) =
      Some (preorder depthExampleTree, (h', DepthEnd))"
    by blast
  moreover have "Suc (length [1, 2, 3, 4, 5, 6, 7, 8 :: nat]) + 0 = 9"
    by simp
  ultimately show ?thesis
    unfolding r p by (simp only:)
qed

section \<open>Properties of breadthTraversalTree\<close>

lemma le_foldr_max: "x \<in> set xs \<Longrightarrow> x \<le> foldr max xs (m::nat)"
  by (induction xs) auto

lemma height_less: "t \<in> set ts \<Longrightarrow> height t < height (Tree a ts)"
  using le_foldr_max [of "height t" "map height ts" 0] by auto

lemma level_beyond: "height t \<le> d \<Longrightarrow> level d t = []"
proof (induction t arbitrary: d)
  case (Tree a ts)
  then obtain e where e: "d = Suc e" by (cases d) auto
  have "level e t = []" if "t \<in> set ts" for t
    using Tree.IH [OF that, of e] height_less [OF that, of a] Tree.prems e by simp
  then show ?case by (simp add: e)
qed

lemma forestLevel_beyond: "\<forall>t \<in> set ts. height t \<le> d \<Longrightarrow> forestLevel d ts = []"
  by (simp add: forestLevel_def level_beyond)

lemma forestLevel_append: "forestLevel d (ts @ us) = forestLevel d ts @ forestLevel d us"
  by (simp add: forestLevel_def)

lemma forestLevel_Cons_0: "forestLevel 0 (Tree b us # ts) = b # forestLevel 0 ts"
  by (simp add: forestLevel_def)

lemma forestLevel_Cons_Suc:
  "forestLevel (Suc d) (Tree b us # ts) = forestLevel d us @ forestLevel (Suc d) ts"
  by (simp add: forestLevel_def)

lemma forestLevelOrder_Nil: "forestLevelOrder n [] = []"
  by (simp add: forestLevelOrder_def forestLevel_def)

lemma interleave:
  "concat (map (\<lambda>d. Q d @ T d) [0..<m]) @ Q m =
   Q 0 @ concat (map (\<lambda>d. T d @ Q (Suc d)) [0..<m])"
  by (induction m) simp_all

lemma forestLevelOrder_Suc:
  "forestLevelOrder (Suc m) ts =
     forestLevel 0 ts @ concat (map (\<lambda>d. forestLevel (Suc d) ts) [0..<m])"
proof -
  have "[0..<Suc m] = 0 # map Suc [0..<m]"
    by (simp add: upt_conv_Cons map_Suc_upt del: upt_Suc)
  then show ?thesis
    unfolding forestLevelOrder_def by (simp add: comp_def del: upt_Suc)
qed

lemma forestLevelOrder_Cons:
  assumes "height (Tree b us) \<le> n"
  shows "forestLevelOrder n (Tree b us # F) = b # forestLevelOrder n (F @ us)"
proof -
  from assms obtain m where n: "n = Suc m" by (cases n) auto
  have "height t \<le> m" if "t \<in> set us" for t
    using height_less [OF that, of b] assms n by simp
  then have e: "forestLevel m us = []" by (simp add: forestLevel_beyond)
  have "forestLevelOrder (Suc m) (F @ us) =
      concat (map (\<lambda>d. forestLevel d F @ forestLevel d us) [0..<m]) @ forestLevel m F"
    by (simp add: forestLevelOrder_def forestLevel_append e)
  also have "\<dots> = forestLevel 0 F @ concat (map (\<lambda>d. forestLevel d us @ forestLevel (Suc d) F) [0..<m])"
    by (rule interleave)
  finally show ?thesis
    unfolding n forestLevelOrder_Suc [of m "Tree b us # F"]
    by (simp add: forestLevel_Cons_0 forestLevel_Cons_Suc)
qed

lemma levelOrder_forest: "levelOrder t = forestLevelOrder (height t) [t]"
  by (simp add: levelOrder_def forestLevelOrder_def forestLevel_def)

lemma mset_forestLevelOrder:
  "length (forestPreorder F) = k \<Longrightarrow> \<forall>t \<in> set F. height t \<le> n \<Longrightarrow>
   mset (forestLevelOrder n F) = mset (forestPreorder F)"
proof (induction k arbitrary: F)
  case 0
  then have "F = []" by (cases F; cases "hd F") (auto simp: forestPreorder_def)
  then show ?case by (simp add: forestLevelOrder_Nil forestPreorder_Nil)
next
  case (Suc k)
  from Suc.prems(1) obtain b us G where F: "F = Tree b us # G"
    by (cases F; cases "hd F") (auto simp: forestPreorder_def)
  have h: "height (Tree b us) \<le> n" using Suc.prems(2) unfolding F by simp
  have 1: "length (forestPreorder (G @ us)) = k"
    using Suc.prems(1) unfolding F by (simp add: forestPreorder_Cons forestPreorder_append)
  have 2: "\<forall>t \<in> set (G @ us). height t \<le> n"
    using Suc.prems(2) height_less [of _ us b] h unfolding F by fastforce
  show ?case
    unfolding F forestLevelOrder_Cons [OF h] forestPreorder_Cons
    using Suc.IH [OF 1 2] by (simp add: forestPreorder_append)
qed

lemma mset_levelOrder: "mset (levelOrder t) = mset (preorder t)"
  unfolding levelOrder_forest preorder_forest
  by (rule mset_forestLevelOrder [OF refl]) simp

lemma breadthLoop_Nil:
  "i \<le> length nodes \<Longrightarrow> drop i nodes = [] \<Longrightarrow> breadthLoop h nodes i = (Done, h, BreadthEnd)"
  by (simp add: breadthLoop_def)

lemma breadthLoop_Cons:
  assumes "drop i nodes = b # rest"
  shows "breadthLoop h nodes i = (Yield b, h, BreadthYielded b nodes (Suc i))"
    and "Suc i \<le> length nodes" and "drop (Suc i) nodes = rest"
proof -
  from assms have i: "i < length nodes" by (cases "i < length nodes") auto
  then have "drop i nodes = nodes ! i # drop (Suc i) nodes"
    by (simp add: Cons_nth_drop_Suc)
  with assms have "nodes ! i = b" and r: "drop (Suc i) nodes = rest" by simp_all
  with i show "breadthLoop h nodes i = (Yield b, h, BreadthYielded b nodes (Suc i))"
    by (simp add: breadthLoop_def)
  from i show "Suc i \<le> length nodes" by simp
  from r show "drop (Suc i) nodes = rest" .
qed

lemma breadthNext_expand:
  assumes "kids h a = map root ts" and "i \<le> length nodes" and "drop i nodes = map root Q"
  shows "\<exists>nodes'. breadthNext (h, BreadthYielded a nodes i) = breadthLoop h nodes' i
           \<and> i \<le> length nodes' \<and> drop i nodes' = map root (Q @ ts)"
proof (cases "children (h a)")
  case None
  with assms(1) have "ts = []" by (simp add: kids_def)
  with None assms(2,3) show ?thesis by auto
next
  case (Some cs)
  with assms(1) have "cs = map root ts" by (simp add: kids_def)
  with Some assms(2,3) show ?thesis by auto
qed

lemma consume_breadth:
  "length (forestPreorder (Q @ ts)) = m \<Longrightarrow>
   kids h a = map root ts \<Longrightarrow> i \<le> length nodes \<Longrightarrow> drop i nodes = map root Q \<Longrightarrow>
   \<forall>t \<in> set (Q @ ts). holds h t \<Longrightarrow>
   \<forall>t \<in> set (Q @ ts). height t \<le> n \<Longrightarrow>
   consume breadthNext (Suc m + k) (h, BreadthYielded a nodes i) =
     Some (forestLevelOrder n (Q @ ts), (h, BreadthEnd))"
proof (induction m arbitrary: a ts Q nodes i)
  case 0
  then have e: "Q @ ts = []" by (cases "Q @ ts"; cases "hd (Q @ ts)") (auto simp: forestPreorder_def)
  from breadthNext_expand [OF "0.prems"(2,3,4)] obtain nodes' where
    "breadthNext (h, BreadthYielded a nodes i) = breadthLoop h nodes' i"
    "i \<le> length nodes'" "drop i nodes' = map root (Q @ ts)"
    by blast
  then have "breadthNext (h, BreadthYielded a nodes i) = (Done, h, BreadthEnd)"
    unfolding e by (simp add: breadthLoop_Nil)
  then have "consume breadthNext (Suc (0 + k)) (h, BreadthYielded a nodes i) = Some ([], (h, BreadthEnd))"
    by (rule consume_Done)
  then show ?case unfolding e by (simp add: forestLevelOrder_Nil)
next
  case (Suc m)
  from Suc.prems(1) obtain b us F where F: "Q @ ts = Tree b us # F"
    by (cases "Q @ ts"; cases "hd (Q @ ts)") (auto simp: forestPreorder_def)
  from breadthNext_expand [OF Suc.prems(2,3,4)] obtain nodes' where
    n1: "breadthNext (h, BreadthYielded a nodes i) = breadthLoop h nodes' i"
    and n3: "drop i nodes' = root (Tree b us) # map root F"
    unfolding F by auto
  note l = breadthLoop_Cons [OF n3]
  have step: "breadthNext (h, BreadthYielded a nodes i) =
      (Yield b, h, BreadthYielded b nodes' (Suc i))"
    unfolding n1 using l(1) by simp
  have hb: "holds h (Tree b us)" using Suc.prems(5) unfolding F by simp
  have hh: "height (Tree b us) \<le> n" using Suc.prems(6) unfolding F by simp
  have 1: "length (forestPreorder (F @ us)) = m"
    using Suc.prems(1) unfolding F by (simp add: forestPreorder_Cons forestPreorder_append)
  have 2: "kids h b = map root us" using hb by simp
  have 5: "\<forall>t \<in> set (F @ us). holds h t"
    using Suc.prems(5) hb unfolding F by auto
  have 6: "\<forall>t \<in> set (F @ us). height t \<le> n"
    using Suc.prems(6) height_less [of _ us b] hh unfolding F by fastforce
  have "consume breadthNext (Suc (Suc m + k)) (h, BreadthYielded a nodes i) =
      Some (b # forestLevelOrder n (F @ us), (h, BreadthEnd))"
    using step Suc.IH [OF 1 2 l(2) l(3) 5 6] by (rule consume_Yield [of breadthNext])
  then show ?case
    unfolding F forestLevelOrder_Cons [OF hh] by simp
qed

lemma holds_breadthExample: "holds breadthExample breadthExampleTree"
  by (simp add: breadthExampleTree_def breadthExample_def kids_def innerNode_def leafNode_def)

text \<open>
  C5: on a heap that holds a finite tree, the full consumption of breadthTraversalTree
  of the root ends (with any bound above the number of nodes on the calls of next())
  and has produced the nodes in level order: the nodes at depth 0, then those at depth
  1, and so on, each level from left to right in the order of the arrays of children.
  The produced nodes are the nodes of the tree, each as often as it occurs in the
  tree, so none is produced twice. A tree of a single node produces just the root. On
  the documented tree of 8 nodes the order is 1, 2, ..., 8.
\<close>

theorem breadthTraversalTree_levelOrder:
  "(isTree h t \<longrightarrow>
      consume breadthNext (Suc (length (preorder t)) + k) (h, breadthTraversalTree (root t)) =
        Some (levelOrder t, (h, BreadthEnd))
      \<and> distinct (levelOrder t))
   \<and> mset (levelOrder t) = mset (preorder t)
   \<and> levelOrder (Tree a []) = [a]
   \<and> isTree breadthExample breadthExampleTree
   \<and> root breadthExampleTree = 1
   \<and> length (preorder breadthExampleTree) = 8
   \<and> levelOrder breadthExampleTree = [1, 2, 3, 4, 5, 6, 7, 8]"
proof -
  have g: "consume breadthNext (Suc (length (preorder t)) + k) (h, breadthTraversalTree (root t)) =
        Some (levelOrder t, (h, BreadthEnd))" if h: "holds h t"
  proof -
    obtain b us where t: "t = Tree b us" by (cases t)
    have p: "preorder t = b # forestPreorder ([] @ us)"
      by (simp add: t forestPreorder_def)
    have s: "breadthNext (h, breadthTraversalTree (root t)) = (Yield b, h, BreadthYielded b [b] (Suc 0))"
      by (simp add: t breadthTraversalTree_def breadthLoop_def)
    have 2: "kids h b = map root us" using h by (simp add: t)
    have 5: "\<forall>u \<in> set ([] @ us). holds h u" using h by (simp add: t)
    have 6: "\<forall>u \<in> set ([] @ us). height u \<le> height t"
      using height_less [of _ us b] unfolding t by fastforce
    have c: "consume breadthNext (Suc (length (forestPreorder ([] @ us))) + k)
               (h, BreadthYielded b [b] (Suc 0)) =
             Some (forestLevelOrder (height t) ([] @ us), (h, BreadthEnd))"
      by (rule consume_breadth [OF refl 2 _ _ 5 6]) simp_all
    have "consume breadthNext (Suc (Suc (length (forestPreorder ([] @ us))) + k))
               (h, breadthTraversalTree (root t)) =
             Some (b # forestLevelOrder (height t) ([] @ us), (h, BreadthEnd))"
      using s c by (rule consume_Yield [of breadthNext])
    moreover have "levelOrder t = b # forestLevelOrder (height t) ([] @ us)"
      unfolding levelOrder_forest t using forestLevelOrder_Cons [of b us "height (Tree b us)" "[]"]
      by simp
    ultimately show ?thesis unfolding p by simp
  qed
  have d: "distinct (levelOrder t)" if "isTree h t"
    using that mset_levelOrder [of t] by (metis isTree_def mset_eq_imp_distinct_iff)
  have e: "levelOrder breadthExampleTree = [1, 2, 3, 4, 5, 6, 7, 8]"
    by code_simp
  have f: "length (preorder breadthExampleTree) = 8"
    by (simp add: breadthExampleTree_def)
  have r: "root breadthExampleTree = 1"
    by (simp add: breadthExampleTree_def)
  have s: "levelOrder (Tree a []) = [a]"
    by (simp add: levelOrder_def)
  have "distinct (preorder breadthExampleTree)"
    by (simp add: breadthExampleTree_def)
  with holds_breadthExample have i: "isTree breadthExample breadthExampleTree"
    by (simp add: isTree_def)
  have "consume breadthNext (Suc (length (preorder t)) + k) (h, breadthTraversalTree (root t)) =
        Some (levelOrder t, (h, BreadthEnd)) \<and> distinct (levelOrder t)" if "isTree h t"
    using that g d by (simp add: isTree_def)
  then show ?thesis
    using e f r s i mset_levelOrder [of t] by blast
qed

theorem breadthTraversalTree_levelOrder_witness:
  "consume breadthNext 9 (breadthExample, breadthTraversalTree 1) =
     Some ([1, 2, 3, 4, 5, 6, 7, 8], (breadthExample, BreadthEnd))
   \<and> distinct [1, 2, 3, 4, 5, 6, 7, 8 :: nat]"
proof -
  note w = breadthTraversalTree_levelOrder [of breadthExample breadthExampleTree 0]
  from w have i: "isTree breadthExample breadthExampleTree"
    and r: "root breadthExampleTree = 1"
    and p: "length (preorder breadthExampleTree) = 8"
    and l: "levelOrder breadthExampleTree = [1, 2, 3, 4, 5, 6, 7, 8]"
    by blast+
  from w i have "consume breadthNext (Suc (length (preorder breadthExampleTree)) + 0)
      (breadthExample, breadthTraversalTree (root breadthExampleTree)) =
      Some (levelOrder breadthExampleTree, (breadthExample, BreadthEnd))
      \<and> distinct (levelOrder breadthExampleTree)"
    by blast
  moreover have "Suc 8 + 0 = (9::nat)"
    by simp
  ultimately show ?thesis
    unfolding r p l by (simp only:)
qed

section \<open>The traversals and the heap\<close>

lemma breadthNext_heap: "fst (snd (breadthNext (h, s))) = h"
  by (cases s) (simp_all add: breadthLoop_def split: option.splits)

text \<open>
  C3 (the code does otherwise): the full consumption of depthTraversalTree on the
  documented tree leaves the arrays of children reversed: node1 has the children
  node2, node6, node7 before and node7, node6, node2 after, and node2 has node3, node4
  before and node4, node3 after. A call of next() on breadthTraversalTree leaves the
  heap as it is.
\<close>

theorem depthTraversalTree_reverses_children:
  "map (\<lambda>a. children (depthExample a)) [1, 2, 4, 7] =
     [Some [2, 6, 7], Some [3, 4], Some [5], Some [8]]
   \<and> (case consume depthNext 9 (depthExample, depthTraversalTree 1) of
        None \<Rightarrow> None
      | Some (vs, h', s) \<Rightarrow> Some (vs, map (\<lambda>a. children (h' a)) [1, 2, 4, 7], s)) =
     Some ([1, 2, 3, 4, 5, 6, 7, 8],
           [Some [7, 6, 2], Some [4, 3], Some [5], Some [8]], DepthEnd)
   \<and> fst (snd (breadthNext (h, s))) = h"
proof -
  have "map (\<lambda>a. children (depthExample a)) [1, 2, 4, 7] =
     [Some [2, 6, 7], Some [3, 4], Some [5], Some [8]]
   \<and> (case consume depthNext 9 (depthExample, depthTraversalTree 1) of
        None \<Rightarrow> None
      | Some (vs, h', s) \<Rightarrow> Some (vs, map (\<lambda>a. children (h' a)) [1, 2, 4, 7], s)) =
     Some ([1, 2, 3, 4, 5, 6, 7, 8],
           [Some [7, 6, 2], Some [4, 3], Some [5], Some [8]], DepthEnd)"
    by code_simp
  then show ?thesis
    using breadthNext_heap [of h s] by blast
qed

text \<open>
  C8 (the code does otherwise): two generators made by depthTraversalTree for the root
  of the documented tree, consumed one after the other, produce different lists: the
  first node1, ..., node8, the second node1, node7, node8, node6, node2, node4, node5,
  node3.
\<close>

theorem depthTraversalTree_twice_differs:
  "(case consume depthNext 9 (depthExample, depthTraversalTree 1) of
      None \<Rightarrow> None
    | Some (vs, h', s) \<Rightarrow>
        (case consume depthNext 9 (h', depthTraversalTree 1) of
           None \<Rightarrow> None
         | Some (vs', h'', s') \<Rightarrow> Some (vs, vs'))) =
   Some ([1, 2, 3, 4, 5, 6, 7, 8], [1, 7, 8, 6, 2, 4, 5, 3])"
  by code_simp

end
